theory Spec2Isabelle
  imports Main "HOL-Library.Word" "HOL-Library.Monad_Syntax"
begin

unbundle bit_operations_syntax

section \<open>The puzzle game's grid engine (src/puzzleGame/main.cpp)\<close>

subsection \<open>Board dimensions\<close>

text \<open>\<^verbatim>\<open>size_t constexpr Width = 6; size_t constexpr Height = 3;\<close>\<close>

definition Width :: nat where
  "Width = 6"

definition Height :: nat where
  "Height = 3"

subsection \<open>Vec2D\<close>

text \<open>
  \<^verbatim>\<open>struct Vec2D { int x; int y; ... }\<close>. The components are C++ \<^verbatim>\<open>int\<close>s. Every
  coordinate the engine computes from a position on the board lies between \<open>-1\<close> and
  \<open>max Width Height\<close>, far from the limits of a 32-bit integer, so the components are
  modelled as unbounded integers. Signed overflow, which C++ leaves undefined and which
  could only arise from a position at the limits of \<^verbatim>\<open>int\<close>, is outside the model.
\<close>

record Vec2D =
  x :: int
  y :: int

text \<open>\<^verbatim>\<open>operator +(Vec2D other)\<close>: componentwise sum.\<close>

definition Vec2D_add :: "Vec2D \<Rightarrow> Vec2D \<Rightarrow> Vec2D" where
  "Vec2D_add self other = \<lparr>x = x self + x other, y = y self + y other\<rparr>"

text \<open>\<^verbatim>\<open>operator *(int factor)\<close>, which forwards to the friend \<^verbatim>\<open>factor * self\<close>.\<close>

definition Vec2D_mul :: "Vec2D \<Rightarrow> int \<Rightarrow> Vec2D" where
  "Vec2D_mul self factor = \<lparr>x = factor * x self, y = factor * y self\<rparr>"

subsection \<open>Flag\<close>

text \<open>
  \<^verbatim>\<open>enum Flag { None = 0, Object = 1 << 0, Person = 1 << 1, Goal = 1 << 2 }\<close> with the
  operators \<^verbatim>\<open>~\<close>, \<^verbatim>\<open>&\<close>, \<^verbatim>\<open>|\<close> defined through \<^verbatim>\<open>static_cast<int>\<close>: a cell's flags
  are a 32-bit mask, and \<^verbatim>\<open>~Person\<close> is the 32-bit complement of \<^verbatim>\<open>Person\<close>. The
  source's \<^verbatim>\<open>None\<close> is \<open>None_Flag\<close> here.
\<close>

type_synonym Flag = "32 word"

definition None_Flag :: Flag where
  "None_Flag = 0"

definition Object :: Flag where
  "Object = push_bit 0 1"

definition Person :: Flag where
  "Person = push_bit 1 1"

definition Goal :: Flag where
  "Goal = push_bit 2 1"

subsection \<open>Direction\<close>

datatype Direction = Up | Down | Left | Right

text \<open>
  \<^verbatim>\<open>dirToVec\<close>: the \<^verbatim>\<open>default: throw\<close> branch of the source's switch is not reachable
  from a value of the enumeration, and the datatype has no such value.
\<close>

fun dirToVec :: "Direction \<Rightarrow> Vec2D" where
  "dirToVec Up = \<lparr>x = 0, y = -1\<rparr>"
| "dirToVec Down = \<lparr>x = 0, y = 1\<rparr>"
| "dirToVec Left = \<lparr>x = -1, y = 0\<rparr>"
| "dirToVec Right = \<lparr>x = 1, y = 0\<rparr>"

subsection \<open>Map\<close>

text \<open>
  \<^verbatim>\<open>class Map\<close> holds \<^verbatim>\<open>Vec2D _person_pos\<close> (field \<open>person_pos\<close>) and
  \<^verbatim>\<open>std::array<Flag, Width * Height> _map\<close> (field \<open>map_cells\<close>), stored row by row.
  The length of the array is part of its type in the source; in the model it is the
  first conjunct of \<open>wellFormed\<close> below.
\<close>

record Map =
  person_pos :: Vec2D
  map_cells :: "Flag list"

text \<open>
  \<^verbatim>\<open>Flag &at(Vec2D pos) { return _map[pos.y * Width + pos.x]; }\<close>. \<^verbatim>\<open>Width\<close> is a
  \<^verbatim>\<open>size_t\<close>, so the index is computed in unsigned 64-bit arithmetic: a negative value
  wraps around to a huge one. \<^verbatim>\<open>std::array::operator[]\<close> does not check its index; an
  index outside the array is undefined behaviour, which the model reports as \<open>None\<close>.
\<close>

definition index :: "Vec2D \<Rightarrow> nat" where
  "index pos = nat ((y pos * int Width + x pos) mod 2 ^ 64)"

text \<open>Reading through the reference returned by \<^verbatim>\<open>at\<close>.\<close>

definition at :: "Map \<Rightarrow> Vec2D \<Rightarrow> Flag option" where
  "at m pos =
     (if index pos < Width * Height then Some (map_cells m ! index pos) else None)"

text \<open>
  Updating through the reference returned by \<^verbatim>\<open>at\<close>, as the compound assignments
  \<^verbatim>\<open>at(pos) &= f\<close> and \<^verbatim>\<open>at(pos) |= f\<close> do.
\<close>

definition at_update :: "Map \<Rightarrow> Vec2D \<Rightarrow> (Flag \<Rightarrow> Flag) \<Rightarrow> Map option" where
  "at_update m pos f =
     (if index pos < Width * Height
      then Some (m\<lparr>map_cells := (map_cells m)[index pos := f (map_cells m ! index pos)]\<rparr>)
      else None)"

text \<open>The initial values of the two members.\<close>

definition initial_Map :: Map where
  "initial_Map =
     \<lparr>person_pos = \<lparr>x = 4, y = 0\<rparr>,
      map_cells =
        [None_Flag, Goal,   Goal,   None_Flag, Person,    None_Flag,
         None_Flag, Object, Object, None_Flag, None_Flag, None_Flag,
         None_Flag, None_Flag, None_Flag, None_Flag, None_Flag, None_Flag]\<rparr>"

subsection \<open>Move resolution\<close>

text \<open>
  \<^verbatim>\<open>int calculateObjectLength(Vec2D pos, Direction dir)\<close>: the number of objects a
  step from \<open>pos\<close> towards \<open>dir\<close> has to push, negative when the step is impossible.
  In \<^verbatim>\<open>Width <= next.x\<close> the coordinate is converted to \<^verbatim>\<open>size_t\<close>; the disjunct is
  evaluated only when \<^verbatim>\<open>next.x < 0\<close> is false, where the conversion changes nothing
  (likewise for \<^verbatim>\<open>Height <= next.y\<close>).
\<close>

function calculateObjectLength :: "Map \<Rightarrow> Vec2D \<Rightarrow> Direction \<Rightarrow> int option" where
  "calculateObjectLength m pos dir =
     (let next = Vec2D_add pos (dirToVec dir) in
      if x next < 0 \<or> int Width \<le> x next \<or> y next < 0 \<or> int Height \<le> y next
      then Some (- 1)
      else (case at m next of
              None \<Rightarrow> None
            | Some flag \<Rightarrow>
                if flag AND Object \<noteq> 0
                then (case calculateObjectLength m next dir of
                        None \<Rightarrow> None
                      | Some prev \<Rightarrow> if prev < 0 then Some prev else Some (prev + 1))
                else Some 0))"
  by pat_completeness auto
termination
  by (relation "measure (\<lambda>(m, pos, dir).
          case dir of Up \<Rightarrow> nat (y pos + 1) | Down \<Rightarrow> nat (int Height - y pos)
                    | Left \<Rightarrow> nat (x pos + 1) | Right \<Rightarrow> nat (int Width - x pos))")
     (auto simp: Vec2D_add_def split: Direction.splits)

declare calculateObjectLength.simps [simp del]

text \<open>
  \<^verbatim>\<open>void moveOnlyPerson(Direction dir)\<close>: the person steps one cell towards \<open>dir\<close>;
  an object flag on the destination is taken down.
\<close>

definition moveOnlyPerson :: "Direction \<Rightarrow> Map \<Rightarrow> Map option" where
  "moveOnlyPerson dir m = do {
     m1 \<leftarrow> at_update m (person_pos m) (\<lambda>flag. flag AND NOT Person);
     let m2 = m1\<lparr>person_pos := Vec2D_add (person_pos m1) (dirToVec dir)\<rparr>;
     m3 \<leftarrow> at_update m2 (person_pos m2) (\<lambda>flag. flag AND NOT Object);
     at_update m3 (person_pos m3) (\<lambda>flag. flag OR Person)
   }"

text \<open>
  \<^verbatim>\<open>void move(Direction dir)\<close>. The object flag is raised \<open>num\<close> cells past the
  position the person has \<^emph>\<open>after\<close> \<^verbatim>\<open>moveOnlyPerson\<close>.
\<close>

definition move :: "Direction \<Rightarrow> Map \<Rightarrow> Map option" where
  "move dir m = do {
     num \<leftarrow> calculateObjectLength m (person_pos m) dir;
     if num < 0 then Some m
     else do {
       m1 \<leftarrow> moveOnlyPerson dir m;
       if num \<noteq> 0
       then at_update m1 (Vec2D_add (person_pos m1) (Vec2D_mul (dirToVec dir) num))
              (\<lambda>flag. flag OR Object)
       else Some m1
     }
   }"

text \<open>A finite sequence of \<^verbatim>\<open>move\<close> calls, as the game loop issues them one after another.\<close>

fun moves :: "Direction list \<Rightarrow> Map \<Rightarrow> Map option" where
  "moves [] m = Some m"
| "moves (dir # dirs) m = do { m1 \<leftarrow> move dir m; moves dirs m1 }"

subsection \<open>Observations on the execution\<close>

text \<open>
  The nesting depth of the recursion of \<^verbatim>\<open>calculateObjectLength\<close>: the same branches
  as the function itself, counting one for each recursive call it makes.
\<close>

function calculateObjectLength_depth :: "Map \<Rightarrow> Vec2D \<Rightarrow> Direction \<Rightarrow> nat" where
  "calculateObjectLength_depth m pos dir =
     (let next = Vec2D_add pos (dirToVec dir) in
      if x next < 0 \<or> int Width \<le> x next \<or> y next < 0 \<or> int Height \<le> y next
      then 0
      else (case at m next of
              None \<Rightarrow> 0
            | Some flag \<Rightarrow>
                if flag AND Object \<noteq> 0
                then Suc (calculateObjectLength_depth m next dir)
                else 0))"
  by pat_completeness auto
termination
  by (relation "measure (\<lambda>(m, pos, dir).
          case dir of Up \<Rightarrow> nat (y pos + 1) | Down \<Rightarrow> nat (int Height - y pos)
                    | Left \<Rightarrow> nat (x pos + 1) | Right \<Rightarrow> nat (int Width - x pos))")
     (auto simp: Vec2D_add_def split: Direction.splits)

declare calculateObjectLength_depth.simps [simp del]

text \<open>
  The coordinates handed to \<^verbatim>\<open>at\<close> while \<^verbatim>\<open>calculateObjectLength\<close> runs, in order:
  one read of \<^verbatim>\<open>at(next)\<close> in each invocation that passes the bounds check.
\<close>

function calculateObjectLength_accesses :: "Map \<Rightarrow> Vec2D \<Rightarrow> Direction \<Rightarrow> Vec2D list" where
  "calculateObjectLength_accesses m pos dir =
     (let next = Vec2D_add pos (dirToVec dir) in
      if x next < 0 \<or> int Width \<le> x next \<or> y next < 0 \<or> int Height \<le> y next
      then []
      else next #
           (case at m next of
              None \<Rightarrow> []
            | Some flag \<Rightarrow>
                if flag AND Object \<noteq> 0
                then calculateObjectLength_accesses m next dir
                else []))"
  by pat_completeness auto
termination
  by (relation "measure (\<lambda>(m, pos, dir).
          case dir of Up \<Rightarrow> nat (y pos + 1) | Down \<Rightarrow> nat (int Height - y pos)
                    | Left \<Rightarrow> nat (x pos + 1) | Right \<Rightarrow> nat (int Width - x pos))")
     (auto simp: Vec2D_add_def split: Direction.splits)

declare calculateObjectLength_accesses.simps [simp del]

text \<open>
  The coordinates handed to \<^verbatim>\<open>at\<close> by \<^verbatim>\<open>moveOnlyPerson\<close>: the old position once,
  the new position twice.
\<close>

definition moveOnlyPerson_accesses :: "Direction \<Rightarrow> Map \<Rightarrow> Vec2D list" where
  "moveOnlyPerson_accesses dir m =
     [person_pos m, Vec2D_add (person_pos m) (dirToVec dir),
      Vec2D_add (person_pos m) (dirToVec dir)]"

text \<open>
  The coordinates handed to \<^verbatim>\<open>at\<close> during one call of \<^verbatim>\<open>move\<close>: the reads of the
  chain scan, then (unless the move is rejected) the writes of \<^verbatim>\<open>moveOnlyPerson\<close> and
  the write that raises the object flag.
\<close>

definition move_accesses :: "Direction \<Rightarrow> Map \<Rightarrow> Vec2D list" where
  "move_accesses dir m =
     calculateObjectLength_accesses m (person_pos m) dir @
     (case calculateObjectLength m (person_pos m) dir of
        None \<Rightarrow> []
      | Some num \<Rightarrow>
          if num < 0 then []
          else moveOnlyPerson_accesses dir m @
               (if num \<noteq> 0
                then [Vec2D_add (Vec2D_add (person_pos m) (dirToVec dir))
                        (Vec2D_mul (dirToVec dir) num)]
                else []))"

subsection \<open>Vocabulary of the specification\<close>

text \<open>A coordinate lies on the board: within \<open>[0,Width) \<times> [0,Height)\<close>.\<close>

definition inBoard :: "Vec2D \<Rightarrow> bool" where
  "inBoard pos \<longleftrightarrow> 0 \<le> x pos \<and> x pos < int Width \<and> 0 \<le> y pos \<and> y pos < int Height"

text \<open>The three attributes of a cell, read through the accessor \<^verbatim>\<open>at\<close>.\<close>

definition hasObject :: "Map \<Rightarrow> Vec2D \<Rightarrow> bool" where
  "hasObject m pos = (case at m pos of None \<Rightarrow> False | Some flag \<Rightarrow> flag AND Object \<noteq> 0)"

definition hasPerson :: "Map \<Rightarrow> Vec2D \<Rightarrow> bool" where
  "hasPerson m pos = (case at m pos of None \<Rightarrow> False | Some flag \<Rightarrow> flag AND Person \<noteq> 0)"

definition isGoal :: "Map \<Rightarrow> Vec2D \<Rightarrow> bool" where
  "isGoal m pos = (case at m pos of None \<Rightarrow> False | Some flag \<Rightarrow> flag AND Goal \<noteq> 0)"

text \<open>The cell \<open>n\<close> steps from \<open>pos\<close> towards \<open>dir\<close>.\<close>

definition ahead :: "Vec2D \<Rightarrow> Direction \<Rightarrow> nat \<Rightarrow> Vec2D" where
  "ahead pos dir n = Vec2D_add pos (Vec2D_mul (dirToVec dir) (int n))"

text \<open>
  The \<open>K\<close> cells ahead of \<open>pos\<close> towards \<open>dir\<close> are all on the board and all hold an
  object: a contiguous run of \<open>K\<close> objects.
\<close>

definition objectRun :: "Map \<Rightarrow> Vec2D \<Rightarrow> Direction \<Rightarrow> nat \<Rightarrow> bool" where
  "objectRun m pos dir K \<longleftrightarrow>
     (\<forall>i \<in> {1..K}. inBoard (ahead pos dir i) \<and> hasObject m (ahead pos dir i))"

text \<open>All coordinates of the board, row by row.\<close>

definition allCells :: "Vec2D list" where
  "allCells = concat (map (\<lambda>r. map (\<lambda>c. \<lparr>x = int c, y = int r\<rparr>) [0..<Width]) [0..<Height])"

text \<open>The number of cells that hold an object.\<close>

definition objectCount :: "Map \<Rightarrow> nat" where
  "objectCount m = length (filter (hasObject m) allCells)"

text \<open>
  A well-formed engine state: the array has its \<open>Width * Height\<close> cells (in the source
  this is part of the type of \<^verbatim>\<open>_map\<close>) and the tracked person position is on the board.
\<close>

definition wellFormed :: "Map \<Rightarrow> bool" where
  "wellFormed m \<longleftrightarrow> length (map_cells m) = Width * Height \<and> inBoard (person_pos m)"

text \<open>
  The actor-position invariant: exactly one cell of the board carries the person flag,
  and it is the cell at the tracked position.
\<close>

definition actorInvariant :: "Map \<Rightarrow> bool" where
  "actorInvariant m \<longleftrightarrow>
     wellFormed m \<and> list_all (\<lambda>pos. hasPerson m pos = (pos = person_pos m)) allCells"

text \<open>
  The person shares its cell with no object: the actor-position invariant holds and the
  cell at the tracked position carries no object flag.
\<close>

definition standsFree :: "Map \<Rightarrow> bool" where
  "standsFree m \<longleftrightarrow> actorInvariant m \<and> \<not> hasObject m (person_pos m)"

subsection \<open>Positions of the reference level\<close>

text \<open>
  Four states of the reference level, each reached from the initial layout by the
  moves named (lemmas \<open>beside_Map_reachable\<close>, \<open>blocked_Map_reachable\<close>,
  \<open>above_Map_reachable\<close> and \<open>pushed_Map_reachable\<close> below). After Down, Left the person stands at \<open>(3,1)\<close>,
  right of the two objects.
\<close>

definition beside_Map :: Map where
  "beside_Map =
     \<lparr>person_pos = \<lparr>x = 3, y = 1\<rparr>,
      map_cells =
        [None_Flag, Goal,   Goal,   None_Flag, None_Flag, None_Flag,
         None_Flag, Object, Object, Person,    None_Flag, None_Flag,
         None_Flag, None_Flag, None_Flag, None_Flag, None_Flag, None_Flag]\<rparr>"

text \<open>After Down, Left, Left the two objects lie against the left edge.\<close>

definition blocked_Map :: Map where
  "blocked_Map =
     \<lparr>person_pos = \<lparr>x = 2, y = 1\<rparr>,
      map_cells =
        [None_Flag, Goal,   Goal,   None_Flag, None_Flag, None_Flag,
         Object,    Object, Person, None_Flag, None_Flag, None_Flag,
         None_Flag, None_Flag, None_Flag, None_Flag, None_Flag, None_Flag]\<rparr>"

text \<open>After Left, Left the person stands on the goal at \<open>(2,0)\<close>, above an object.\<close>

definition above_Map :: Map where
  "above_Map =
     \<lparr>person_pos = \<lparr>x = 2, y = 0\<rparr>,
      map_cells =
        [None_Flag, Goal,   Goal OR Person, None_Flag, None_Flag, None_Flag,
         None_Flag, Object, Object,         None_Flag, None_Flag, None_Flag,
         None_Flag, None_Flag, None_Flag, None_Flag, None_Flag, None_Flag]\<rparr>"

text \<open>After Left, Left, Down the object below the goal has been pushed to the bottom row.\<close>

definition pushed_Map :: Map where
  "pushed_Map =
     \<lparr>person_pos = \<lparr>x = 2, y = 1\<rparr>,
      map_cells =
        [None_Flag, Goal,   Goal,   None_Flag, None_Flag, None_Flag,
         None_Flag, Object, Person, None_Flag, None_Flag, None_Flag,
         None_Flag, None_Flag, Object, None_Flag, None_Flag, None_Flag]\<rparr>"

section \<open>Properties\<close>

subsection \<open>Flags and indexing\<close>

lemma hasbit_Object: "(f AND Object \<noteq> 0) = bit f 0" for f :: Flag
  unfolding Object_def using and_exp_eq_0_iff_not_bit[of f 0] by simp

lemma hasbit_Person: "(f AND Person \<noteq> 0) = bit f 1" for f :: Flag
  unfolding Person_def using and_exp_eq_0_iff_not_bit[of f 1] by simp

lemma hasbit_Goal: "(f AND Goal \<noteq> 0) = bit f 2" for f :: Flag
  unfolding Goal_def using and_exp_eq_0_iff_not_bit[of f 2] by simp

lemma bit_clear_Person: "bit (f AND NOT Person) n = (bit f n \<and> n \<noteq> 1)" for f :: Flag
  by (auto simp: Person_def bit_simps dest: bit_imp_le_length)

lemma bit_clear_Object: "bit (f AND NOT Object) n = (bit f n \<and> n \<noteq> 0)" for f :: Flag
  by (auto simp: Object_def bit_simps dest: bit_imp_le_length)

lemma bit_set_Person: "bit (f OR Person) n = (bit f n \<or> n = 1)" for f :: Flag
  by (auto simp: Person_def bit_simps)

lemma bit_set_Object: "bit (f OR Object) n = (bit f n \<or> n = 0)" for f :: Flag
  by (auto simp: Object_def bit_simps)

lemma index_inBoard:
  assumes "inBoard p"
  shows "index p = nat (y p * int Width + x p)" and "index p < Width * Height"
proof -
  let ?v = "y p * int Width + x p"
  have "0 \<le> ?v" "?v < 18" using assms by (auto simp: inBoard_def Width_def Height_def)
  then show "index p = nat ?v" "index p < Width * Height"
    by (auto simp: index_def Width_def Height_def)
qed

lemma index_inj:
  assumes "inBoard p" "inBoard q" "index p = index q"
  shows "p = q"
proof -
  have e: "y p * 6 + x p = y q * 6 + x q"
    using assms index_inBoard(1)[of p] index_inBoard(1)[of q]
    by (auto simp: inBoard_def Width_def)
  have b: "0 \<le> x p" "x p < 6" "0 \<le> x q" "x q < 6"
    using assms(1,2) by (auto simp: inBoard_def Width_def)
  have "x p = x q" using e b by arith
  moreover have "y p = y q" using e b by arith
  ultimately show ?thesis by simp
qed

lemma at_inBoard: "inBoard p \<Longrightarrow> at m p = Some (map_cells m ! index p)"
  by (simp add: at_def index_inBoard(2))

lemma at_update_inBoard:
  assumes "inBoard p" "length (map_cells m) = Width * Height"
  shows "\<exists>m'. at_update m p f = Some m' \<and> person_pos m' = person_pos m
      \<and> length (map_cells m') = Width * Height
      \<and> (\<forall>q. inBoard q \<longrightarrow> at m' q = (if q = p then map_option f (at m p) else at m q))"
proof -
  let ?m' = "m\<lparr>map_cells := (map_cells m)[index p := f (map_cells m ! index p)]\<rparr>"
  have i: "index p < Width * Height" by (rule index_inBoard(2)[OF assms(1)])
  have u: "at_update m p f = Some ?m'" using i by (simp add: at_update_def)
  have "at ?m' q = (if q = p then map_option f (at m p) else at m q)" if "inBoard q" for q
  proof (cases "q = p")
    case True
    then show ?thesis using assms i by (simp add: at_inBoard)
  next
    case False
    then have "index q \<noteq> index p" using index_inj[OF that assms(1)] by blast
    then show ?thesis using False that by (simp add: at_inBoard)
  qed
  then show ?thesis using u assms(2) by simp
qed

subsection \<open>The chain scan\<close>

lemma ahead_0: "ahead pos dir 0 = pos"
  by (simp add: ahead_def Vec2D_add_def Vec2D_mul_def)

lemma ahead_1: "ahead pos dir (Suc 0) = Vec2D_add pos (dirToVec dir)"
  by (simp add: ahead_def Vec2D_add_def Vec2D_mul_def)

lemma ahead_Suc: "ahead pos dir (Suc n) = ahead (Vec2D_add pos (dirToVec dir)) dir n"
  by (simp add: ahead_def Vec2D_add_def Vec2D_mul_def algebra_simps)

lemma ahead_target:
  "0 \<le> num \<Longrightarrow> Vec2D_add (Vec2D_add pos (dirToVec dir)) (Vec2D_mul (dirToVec dir) num)
     = ahead pos dir (Suc (nat num))"
  by (simp add: ahead_def Vec2D_add_def Vec2D_mul_def algebra_simps)

lemma ahead_inj: "ahead pos dir i = ahead pos dir j \<Longrightarrow> i = j"
  by (cases dir) (auto simp: ahead_def Vec2D_add_def Vec2D_mul_def)

lemma outside_iff:
  "(x p < 0 \<or> int Width \<le> x p \<or> y p < 0 \<or> int Height \<le> y p) = (\<not> inBoard p)"
  by (auto simp: inBoard_def)

lemma hasObject_inBoard: "inBoard p \<Longrightarrow> at m p = Some f \<Longrightarrow> (f AND Object \<noteq> 0) = hasObject m p"
  by (simp add: hasObject_def)

lemma calc_unfold:
  "calculateObjectLength m pos dir =
     (if \<not> inBoard (ahead pos dir (Suc 0)) then Some (- 1)
      else if hasObject m (ahead pos dir (Suc 0))
           then (case calculateObjectLength m (ahead pos dir (Suc 0)) dir of
                   None \<Rightarrow> None
                 | Some prev \<Rightarrow> if prev < 0 then Some prev else Some (prev + 1))
           else Some 0)"
  by (subst calculateObjectLength.simps)
     (simp add: Let_def outside_iff ahead_1 at_inBoard hasObject_def)

lemma depth_unfold:
  "calculateObjectLength_depth m pos dir =
     (if inBoard (ahead pos dir (Suc 0)) \<and> hasObject m (ahead pos dir (Suc 0))
      then Suc (calculateObjectLength_depth m (ahead pos dir (Suc 0)) dir) else 0)"
  by (subst calculateObjectLength_depth.simps)
     (simp add: Let_def outside_iff ahead_1 at_inBoard hasObject_def)

lemma accesses_unfold:
  "calculateObjectLength_accesses m pos dir =
     (if \<not> inBoard (ahead pos dir (Suc 0)) then []
      else ahead pos dir (Suc 0) # (if hasObject m (ahead pos dir (Suc 0))
      then calculateObjectLength_accesses m (ahead pos dir (Suc 0)) dir else []))"
  by (subst calculateObjectLength_accesses.simps)
     (simp add: Let_def outside_iff ahead_1 at_inBoard hasObject_def)

lemma ahead_ahead_1: "ahead (ahead pos dir (Suc 0)) dir n = ahead pos dir (Suc n)"
  by (simp add: ahead_def Vec2D_add_def Vec2D_mul_def algebra_simps)

lemma objectRun_0: "objectRun m pos dir 0"
  by (simp add: objectRun_def)

lemma ball_Suc_range:
  "(\<forall>i \<in> {1..Suc K}. P i) \<longleftrightarrow> P (Suc 0) \<and> (\<forall>i \<in> {1..K}. P (Suc i))"
proof
  assume "\<forall>i \<in> {1..Suc K}. P i"
  then show "P (Suc 0) \<and> (\<forall>i \<in> {1..K}. P (Suc i))" by simp
next
  assume a: "P (Suc 0) \<and> (\<forall>i \<in> {1..K}. P (Suc i))"
  show "\<forall>i \<in> {1..Suc K}. P i"
  proof
    fix i assume i: "i \<in> {1..Suc K}"
    then obtain j where j: "i = Suc j" by (cases i) auto
    show "P i"
    proof (cases j)
      case 0
      then show ?thesis using a j by simp
    next
      case (Suc k)
      then show ?thesis using a i j by simp
    qed
  qed
qed

lemma objectRun_Suc:
  "objectRun m pos dir (Suc K) \<longleftrightarrow>
     inBoard (ahead pos dir (Suc 0)) \<and> hasObject m (ahead pos dir (Suc 0)) \<and>
     objectRun m (ahead pos dir (Suc 0)) dir K"
  unfolding objectRun_def ahead_ahead_1
  by (subst ball_Suc_range) auto

lemma depth_run:
  "objectRun m pos dir (calculateObjectLength_depth m pos dir) \<and>
   \<not> (inBoard (ahead pos dir (Suc (calculateObjectLength_depth m pos dir))) \<and>
      hasObject m (ahead pos dir (Suc (calculateObjectLength_depth m pos dir))))"
proof (induction "calculateObjectLength_depth m pos dir" arbitrary: pos)
  case 0
  then show ?case using depth_unfold[of m pos dir]
    by (auto simp: objectRun_0 split: if_splits)
next
  case (Suc k)
  from Suc(2) have s: "inBoard (ahead pos dir (Suc 0))" "hasObject m (ahead pos dir (Suc 0))"
    "k = calculateObjectLength_depth m (ahead pos dir (Suc 0)) dir"
    using depth_unfold[of m pos dir] by (auto split: if_splits)
  show ?case using Suc(1)[OF s(3)] s Suc(2)[symmetric]
    by (simp add: objectRun_Suc ahead_ahead_1)
qed

lemma run_depth:
  "objectRun m pos dir K \<Longrightarrow>
   \<not> (inBoard (ahead pos dir (Suc K)) \<and> hasObject m (ahead pos dir (Suc K))) \<Longrightarrow>
   calculateObjectLength_depth m pos dir = K"
proof (induction K arbitrary: pos)
  case 0
  then show ?case using depth_unfold[of m pos dir] by auto
next
  case (Suc K)
  then show ?case using depth_unfold[of m pos dir]
    by (simp add: objectRun_Suc ahead_ahead_1)
qed

lemma calc_depth:
  "calculateObjectLength m pos dir =
     Some (if inBoard (ahead pos dir (Suc (calculateObjectLength_depth m pos dir)))
           then int (calculateObjectLength_depth m pos dir) else - 1)"
proof (induction "calculateObjectLength_depth m pos dir" arbitrary: pos)
  case 0
  then show ?case using depth_unfold[of m pos dir] calc_unfold[of m pos dir]
    by (auto split: if_splits)
next
  case (Suc k)
  from Suc(2) have s: "inBoard (ahead pos dir (Suc 0))" "hasObject m (ahead pos dir (Suc 0))"
    "k = calculateObjectLength_depth m (ahead pos dir (Suc 0)) dir"
    using depth_unfold[of m pos dir] by (auto split: if_splits)
  show ?case using Suc(1)[OF s(3)] s Suc(2)[symmetric] calc_unfold[of m pos dir]
    by (simp add: ahead_ahead_1)
qed

lemma map_ahead_shift:
  "map (ahead (ahead pos dir (Suc 0)) dir) [Suc 0..<n] = map (ahead pos dir) [Suc (Suc 0)..<Suc n]"
proof -
  have "map (ahead pos dir) [Suc (Suc 0)..<Suc n] = map (ahead pos dir) (map Suc [Suc 0..<n])"
    by (simp only: map_Suc_upt)
  then show ?thesis by (simp add: ahead_ahead_1 comp_def del: upt_Suc)
qed

lemma accesses_depth:
  "calculateObjectLength_accesses m pos dir =
     map (ahead pos dir)
       [Suc 0..<(if inBoard (ahead pos dir (Suc (calculateObjectLength_depth m pos dir)))
               then Suc (Suc (calculateObjectLength_depth m pos dir))
               else Suc (calculateObjectLength_depth m pos dir))]"
proof (induction "calculateObjectLength_depth m pos dir" arbitrary: pos)
  case 0
  then show ?case using depth_unfold[of m pos dir] accesses_unfold[of m pos dir]
    by (auto split: if_splits)
next
  case (Suc k)
  from Suc(2) have s: "inBoard (ahead pos dir (Suc 0))" "hasObject m (ahead pos dir (Suc 0))"
    "k = calculateObjectLength_depth m (ahead pos dir (Suc 0)) dir"
    using depth_unfold[of m pos dir] by (auto split: if_splits)
  have c: "[Suc 0..<Suc (Suc n)] = Suc 0 # [Suc (Suc 0)..<Suc (Suc n)]" for n
    by (simp add: upt_conv_Cons del: upt_Suc)
  show ?case
  proof (cases "inBoard (ahead pos dir (Suc (Suc k)))")
    case True
    then show ?thesis
      using Suc(1)[OF s(3)] s Suc(2)[symmetric] accesses_unfold[of m pos dir] c[of "Suc k"]
      by (simp add: ahead_ahead_1 map_ahead_shift del: upt_Suc)
  next
    case False
    then show ?thesis
      using Suc(1)[OF s(3)] s Suc(2)[symmetric] accesses_unfold[of m pos dir] c[of k]
      by (simp add: ahead_ahead_1 map_ahead_shift del: upt_Suc)
  qed
qed

subsection \<open>The commit phase\<close>

lemma at_person_pos_update [simp]: "at (m\<lparr>person_pos := p\<rparr>) q = at m q"
  by (simp add: at_def)

lemma ahead_neq_self: "ahead pos dir (Suc n) \<noteq> pos"
  using ahead_inj[of pos dir "Suc n" 0] by (auto simp: ahead_0)

lemma moveOnlyPerson_result:
  assumes len: "length (map_cells m) = Width * Height"
    and p: "inBoard (person_pos m)"
    and n: "inBoard (ahead (person_pos m) dir (Suc 0))"
  shows "\<exists>m'. moveOnlyPerson dir m = Some m' \<and>
           person_pos m' = ahead (person_pos m) dir (Suc 0) \<and>
           length (map_cells m') = Width * Height \<and>
           (\<forall>q. inBoard q \<longrightarrow> at m' q =
              (if q = ahead (person_pos m) dir (Suc 0)
               then map_option (\<lambda>flag. (flag AND NOT Object) OR Person) (at m q)
               else if q = person_pos m
               then map_option (\<lambda>flag. flag AND NOT Person) (at m q)
               else at m q))"
proof -
  let ?nxt = "ahead (person_pos m) dir (Suc 0)"
  have ne: "?nxt \<noteq> person_pos m" by (rule ahead_neq_self)
  obtain m1 where m1: "at_update m (person_pos m) (\<lambda>flag. flag AND NOT Person) = Some m1"
      "person_pos m1 = person_pos m" "length (map_cells m1) = Width * Height"
      "\<And>q. inBoard q \<Longrightarrow> at m1 q =
          (if q = person_pos m then map_option (\<lambda>flag. flag AND NOT Person) (at m (person_pos m))
           else at m q)"
    using at_update_inBoard[OF p len, of "\<lambda>flag. flag AND NOT Person"] by blast
  define m2 where "m2 = m1\<lparr>person_pos := Vec2D_add (person_pos m1) (dirToVec dir)\<rparr>"
  have m2: "person_pos m2 = ?nxt" "length (map_cells m2) = Width * Height"
      "\<And>q. at m2 q = at m1 q"
    by (simp_all add: m2_def m1 ahead_1)
  obtain m3 where m3: "at_update m2 ?nxt (\<lambda>flag. flag AND NOT Object) = Some m3"
      "person_pos m3 = person_pos m2" "length (map_cells m3) = Width * Height"
      "\<And>q. inBoard q \<Longrightarrow> at m3 q =
          (if q = ?nxt then map_option (\<lambda>flag. flag AND NOT Object) (at m2 ?nxt) else at m2 q)"
    using at_update_inBoard[OF n m2(2), of "\<lambda>flag. flag AND NOT Object"] by blast
  obtain m4 where m4: "at_update m3 ?nxt (\<lambda>flag. flag OR Person) = Some m4"
      "person_pos m4 = person_pos m3" "length (map_cells m4) = Width * Height"
      "\<And>q. inBoard q \<Longrightarrow> at m4 q =
          (if q = ?nxt then map_option (\<lambda>flag. flag OR Person) (at m3 ?nxt) else at m3 q)"
    using at_update_inBoard[OF n m3(3), of "\<lambda>flag. flag OR Person"] by blast
  have r: "moveOnlyPerson dir m = Some m4"
    using m1(1) m3(1) m4(1) m2(1) m3(2)
    by (simp add: moveOnlyPerson_def m2_def ahead_1 m1(2))
  have "at m4 q =
              (if q = ?nxt
               then map_option (\<lambda>flag. (flag AND NOT Object) OR Person) (at m q)
               else if q = person_pos m
               then map_option (\<lambda>flag. flag AND NOT Person) (at m q)
               else at m q)" if "inBoard q" for q
    using that n ne m4(4)[OF that] m3(4)[OF that] m3(4)[OF n] m2(3) m1(4)[OF that] m1(4)[OF n]
    by (simp add: option.map_comp comp_def)
  then show ?thesis using r m4(2,3) m3(2) m2(1) by simp
qed

lemma move_rejected:
  "\<not> inBoard (ahead (person_pos m) dir (Suc (calculateObjectLength_depth m (person_pos m) dir)))
   \<Longrightarrow> move dir m = Some m"
  by (simp add: move_def calc_depth)

lemma move_result:
  assumes len: "length (map_cells m) = Width * Height"
    and p: "inBoard (person_pos m)"
    and K: "K = calculateObjectLength_depth m (person_pos m) dir"
    and f: "inBoard (ahead (person_pos m) dir (Suc K))"
  shows "\<exists>m'. move dir m = Some m' \<and>
           person_pos m' = ahead (person_pos m) dir (Suc 0) \<and>
           length (map_cells m') = Width * Height \<and>
           (\<forall>q. inBoard q \<longrightarrow> at m' q =
              (if q = ahead (person_pos m) dir (Suc K) \<and> K \<noteq> 0
               then map_option (\<lambda>flag. flag OR Object) (at m q)
               else if q = ahead (person_pos m) dir (Suc 0)
               then map_option (\<lambda>flag. (flag AND NOT Object) OR Person) (at m q)
               else if q = person_pos m
               then map_option (\<lambda>flag. flag AND NOT Person) (at m q)
               else at m q))"
proof -
  let ?pos = "person_pos m"
  have c: "calculateObjectLength m ?pos dir = Some (int K)"
    using f K by (simp add: calc_depth)
  have run: "objectRun m ?pos dir K" using depth_run[of m ?pos dir] K by simp
  have n: "inBoard (ahead ?pos dir (Suc 0))"
  proof (cases K)
    case 0
    then show ?thesis using f by simp
  next
    case (Suc k)
    then show ?thesis using run by (simp add: objectRun_def)
  qed
  obtain m1 where m1: "moveOnlyPerson dir m = Some m1"
      "person_pos m1 = ahead ?pos dir (Suc 0)" "length (map_cells m1) = Width * Height"
      "\<And>q. inBoard q \<Longrightarrow> at m1 q =
              (if q = ahead ?pos dir (Suc 0)
               then map_option (\<lambda>flag. (flag AND NOT Object) OR Person) (at m q)
               else if q = ?pos
               then map_option (\<lambda>flag. flag AND NOT Person) (at m q)
               else at m q)"
    using moveOnlyPerson_result[OF len p n] by blast
  show ?thesis
  proof (cases "K = 0")
    case True
    then have "move dir m = Some m1" using c m1(1) by (simp add: move_def)
    then show ?thesis using True m1 by simp
  next
    case False
    have t: "Vec2D_add (person_pos m1) (Vec2D_mul (dirToVec dir) (int K)) = ahead ?pos dir (Suc K)"
      using ahead_target[of "int K" ?pos dir] by (simp add: m1(2) ahead_1)
    obtain m2 where m2: "at_update m1 (ahead ?pos dir (Suc K)) (\<lambda>flag. flag OR Object) = Some m2"
      "person_pos m2 = person_pos m1" "length (map_cells m2) = Width * Height"
      "\<And>q. inBoard q \<Longrightarrow> at m2 q =
          (if q = ahead ?pos dir (Suc K)
           then map_option (\<lambda>flag. flag OR Object) (at m1 (ahead ?pos dir (Suc K))) else at m1 q)"
      using at_update_inBoard[OF f m1(3), of "\<lambda>flag. flag OR Object"] by blast
    have mv: "move dir m = Some m2" using c m1(1) m2(1) False t by (simp add: move_def)
    have d1: "ahead ?pos dir (Suc K) \<noteq> ahead ?pos dir (Suc 0)"
      using ahead_inj[of ?pos dir "Suc K" "Suc 0"] False by auto
    have d0: "ahead ?pos dir (Suc K) \<noteq> ?pos" by (rule ahead_neq_self)
    have "at m2 q =
              (if q = ahead ?pos dir (Suc K) \<and> K \<noteq> 0
               then map_option (\<lambda>flag. flag OR Object) (at m q)
               else if q = ahead ?pos dir (Suc 0)
               then map_option (\<lambda>flag. (flag AND NOT Object) OR Person) (at m q)
               else if q = ?pos
               then map_option (\<lambda>flag. flag AND NOT Person) (at m q)
               else at m q)" if "inBoard q" for q
      using that False d0 d1 m2(4)[OF that] m1(4)[OF that] m1(4)[OF f] by simp
    then show ?thesis using mv m2(2,3) m1(2) by simp
  qed
qed

subsection \<open>The effect of a move on the attributes of the cells\<close>

lemma hasObject_bit: "hasObject m q = (case at m q of None \<Rightarrow> False | Some flag \<Rightarrow> bit flag 0)"
  by (simp add: hasObject_def hasbit_Object split: option.split)

lemma hasPerson_bit: "hasPerson m q = (case at m q of None \<Rightarrow> False | Some flag \<Rightarrow> bit flag 1)"
  by (simp add: hasPerson_def hasbit_Person split: option.split)

lemma isGoal_bit: "isGoal m q = (case at m q of None \<Rightarrow> False | Some flag \<Rightarrow> bit flag 2)"
  by (simp add: isGoal_def hasbit_Goal split: option.split)

lemmas flag_bits = hasObject_bit hasPerson_bit isGoal_bit
  bit_clear_Person bit_clear_Object bit_set_Person bit_set_Object

lemma run_first_inBoard:
  assumes "objectRun m pos dir K" "inBoard (ahead pos dir (Suc K))"
  shows "inBoard (ahead pos dir (Suc 0))"
proof (cases K)
  case 0
  then show ?thesis using assms(2) by simp
next
  case (Suc k)
  then show ?thesis using assms(1) by (simp add: objectRun_def)
qed

lemma move_effect:
  assumes wf: "wellFormed m"
    and K: "K = calculateObjectLength_depth m (person_pos m) dir"
    and f: "inBoard (ahead (person_pos m) dir (Suc K))"
  shows "\<exists>m'. move dir m = Some m' \<and> wellFormed m' \<and>
           person_pos m' = ahead (person_pos m) dir (Suc 0) \<and>
           (\<forall>q. inBoard q \<longrightarrow>
              hasObject m' q = (if q = ahead (person_pos m) dir (Suc K) \<and> K \<noteq> 0 then True
                                else if q = ahead (person_pos m) dir (Suc 0) then False
                                else hasObject m q)) \<and>
           (\<forall>q. inBoard q \<longrightarrow>
              hasPerson m' q = (if q = ahead (person_pos m) dir (Suc 0) then True
                                else if q = person_pos m then False
                                else hasPerson m q)) \<and>
           (\<forall>q. inBoard q \<longrightarrow> isGoal m' q = isGoal m q) \<and>
           (\<forall>q. inBoard q \<longrightarrow> q \<noteq> person_pos m \<longrightarrow> q \<noteq> ahead (person_pos m) dir (Suc 0) \<longrightarrow>
                q \<noteq> ahead (person_pos m) dir (Suc K) \<longrightarrow> at m' q = at m q)"
proof -
  let ?pos = "person_pos m"
  have len: "length (map_cells m) = Width * Height" and p: "inBoard ?pos"
    using wf by (simp_all add: wellFormed_def)
  have run: "objectRun m ?pos dir K" using depth_run[of m ?pos dir] K by simp
  have n: "inBoard (ahead ?pos dir (Suc 0))" by (rule run_first_inBoard[OF run f])
  have d1: "K \<noteq> 0 \<Longrightarrow> ahead ?pos dir (Suc K) \<noteq> ahead ?pos dir (Suc 0)"
    using ahead_inj[of ?pos dir "Suc K" "Suc 0"] by auto
  have d0: "ahead ?pos dir (Suc K) \<noteq> ?pos" "ahead ?pos dir (Suc 0) \<noteq> ?pos"
    by (rule ahead_neq_self)+
  obtain m' where m': "move dir m = Some m'"
      "person_pos m' = ahead ?pos dir (Suc 0)" "length (map_cells m') = Width * Height"
      "\<And>q. inBoard q \<Longrightarrow> at m' q =
              (if q = ahead ?pos dir (Suc K) \<and> K \<noteq> 0
               then map_option (\<lambda>flag. flag OR Object) (at m q)
               else if q = ahead ?pos dir (Suc 0)
               then map_option (\<lambda>flag. (flag AND NOT Object) OR Person) (at m q)
               else if q = ?pos
               then map_option (\<lambda>flag. flag AND NOT Person) (at m q)
               else at m q)"
    using move_result[OF len p K f] by blast
  have wf': "wellFormed m'" using m'(2,3) n by (simp add: wellFormed_def)
  have o: "hasObject m' q = (if q = ahead ?pos dir (Suc K) \<and> K \<noteq> 0 then True
                                else if q = ahead ?pos dir (Suc 0) then False
                                else hasObject m q)" if "inBoard q" for q
    using m'(4)[OF that] at_inBoard[OF that, of m] d0 d1 by (auto simp: flag_bits)
  have pe: "hasPerson m' q = (if q = ahead ?pos dir (Suc 0) then True
                                else if q = ?pos then False
                                else hasPerson m q)" if "inBoard q" for q
    using m'(4)[OF that] at_inBoard[OF that, of m] d0 d1 by (auto simp: flag_bits)
  have g: "isGoal m' q = isGoal m q" if "inBoard q" for q
    using m'(4)[OF that] at_inBoard[OF that, of m] by (auto simp: flag_bits)
  have fr: "at m' q = at m q" if "inBoard q" "q \<noteq> ?pos" "q \<noteq> ahead ?pos dir (Suc 0)"
    "q \<noteq> ahead ?pos dir (Suc K)" for q
    using m'(4)[OF that(1)] that by simp
  show ?thesis using m'(1,2) wf' o pe g fr by blast
qed

lemma in_allCells:
  "p \<in> set allCells \<longleftrightarrow> (\<exists>r < Height. \<exists>c < Width. p = \<lparr>x = int c, y = int r\<rparr>)"
  by (auto simp: allCells_def image_iff)

lemma set_allCells: "set allCells = {p. inBoard p}"
proof -
  have "p \<in> set allCells" if "inBoard p" for p
  proof -
    have "nat (y p) < Height" "nat (x p) < Width"
      "p = \<lparr>x = int (nat (x p)), y = int (nat (y p))\<rparr>"
      using that by (auto simp: inBoard_def)
    then show ?thesis unfolding in_allCells by blast
  qed
  moreover have "inBoard p" if "p \<in> set allCells" for p
    using that by (auto simp: in_allCells inBoard_def)
  ultimately show ?thesis by blast
qed

lemma distinct_allCells: "distinct allCells"
  by code_simp

subsection \<open>The reference level\<close>

lemma beside_Map_reachable: "moves [Down, Left] initial_Map = Some beside_Map"
  by code_simp

lemma blocked_Map_reachable: "moves [Down, Left, Left] initial_Map = Some blocked_Map"
  by code_simp

lemma above_Map_reachable: "moves [Left, Left] initial_Map = Some above_Map"
  by code_simp

lemma pushed_Map_reachable: "moves [Left, Left, Down] initial_Map = Some pushed_Map"
  by code_simp

subsection \<open>Rejected moves\<close>

text \<open>
  Claim C3. A move is illegal when the \<open>K\<close> cells ahead of the person hold a run of
  objects and the cell after the run is off the board; \<open>K = 0\<close> is the case of a
  destination off the board. Then the chain scan answers \<open>-1\<close>, and \<^verbatim>\<open>move\<close> returns
  normally with the very same state: the tracked position and every cell are as before.
  Nothing is assumed about the state.
\<close>

theorem illegal_move_changes_nothing:
  assumes "objectRun m (person_pos m) dir K"
    and "\<not> inBoard (ahead (person_pos m) dir (Suc K))"
  shows "calculateObjectLength m (person_pos m) dir = Some (- 1) \<and> move dir m = Some m"
proof -
  have "calculateObjectLength_depth m (person_pos m) dir = K"
    using assms by (intro run_depth) simp_all
  then show ?thesis using assms(2) by (simp add: calc_depth move_rejected)
qed

theorem illegal_move_changes_nothing_witness:
  "objectRun blocked_Map (person_pos blocked_Map) Left 2 \<and>
   \<not> inBoard (ahead (person_pos blocked_Map) Left (Suc 2)) \<and>
   calculateObjectLength blocked_Map (person_pos blocked_Map) Left = Some (- 1) \<and>
   move Left blocked_Map = Some blocked_Map"
proof -
  have r: "objectRun blocked_Map (person_pos blocked_Map) Left 2" by code_simp
  have o: "\<not> inBoard (ahead (person_pos blocked_Map) Left (Suc 2))" by code_simp
  show ?thesis using illegal_move_changes_nothing[OF r o] r o by simp
qed

subsection \<open>The actor-position invariant\<close>

lemma wellFormed_initial: "wellFormed initial_Map"
  by code_simp

lemma actorInvariant_initial: "actorInvariant initial_Map"
  by code_simp

lemma actorInvariant_iff:
  "actorInvariant m \<longleftrightarrow>
     wellFormed m \<and> (\<forall>q. inBoard q \<longrightarrow> hasPerson m q = (q = person_pos m))"
  by (simp add: actorInvariant_def list_all_iff set_allCells)

lemma move_cases:
  assumes "wellFormed m"
  shows "(\<not> inBoard (ahead (person_pos m) dir (Suc (calculateObjectLength_depth m (person_pos m) dir)))
          \<and> calculateObjectLength m (person_pos m) dir = Some (- 1) \<and> move dir m = Some m)
       \<or> (inBoard (ahead (person_pos m) dir (Suc (calculateObjectLength_depth m (person_pos m) dir)))
          \<and> calculateObjectLength m (person_pos m) dir =
              Some (int (calculateObjectLength_depth m (person_pos m) dir)))"
  by (simp add: calc_depth move_rejected)

text \<open>
  Claim C4. From a state in which exactly one cell of the board carries the person flag,
  that cell being the tracked position, and the tracked position is on the board,
  \<^verbatim>\<open>move\<close> returns (accepted or rejected) a state with the same property
  (\<open>actorInvariant\<close>; lemma \<open>actorInvariant_iff\<close> reads it cell by cell).
\<close>

theorem move_keeps_actor_invariant:
  assumes "actorInvariant m"
  shows "\<exists>m'. move dir m = Some m' \<and> actorInvariant m'"
proof (cases "inBoard (ahead (person_pos m) dir (Suc (calculateObjectLength_depth m (person_pos m) dir)))")
  case False
  then show ?thesis using assms by (simp add: move_rejected)
next
  case True
  have wf: "wellFormed m" and u: "\<And>q. inBoard q \<Longrightarrow> hasPerson m q = (q = person_pos m)"
    using assms by (simp_all add: actorInvariant_iff)
  obtain m' where m': "move dir m = Some m'" "wellFormed m'"
      "person_pos m' = ahead (person_pos m) dir (Suc 0)"
      "\<And>q. inBoard q \<Longrightarrow>
              hasPerson m' q = (if q = ahead (person_pos m) dir (Suc 0) then True
                                else if q = person_pos m then False
                                else hasPerson m q)"
    using move_effect[OF wf refl True] by blast
  have "hasPerson m' q = (q = person_pos m')" if "inBoard q" for q
    using m'(4)[OF that] u[OF that] m'(3) by simp
  then show ?thesis using m'(1,2) by (simp add: actorInvariant_iff)
qed

theorem move_keeps_actor_invariant_witness:
  "actorInvariant blocked_Map \<and> actorInvariant beside_Map \<and>
   move Left blocked_Map = Some blocked_Map \<and> move Left beside_Map = Some blocked_Map"
proof -
  have a: "actorInvariant beside_Map" by code_simp
  have b: "move Left beside_Map = Some blocked_Map" by code_simp
  have c: "move Left blocked_Map = Some blocked_Map" by code_simp
  show ?thesis using move_keeps_actor_invariant[OF a, of Left] a b c by simp
qed

subsection \<open>A step onto a cell without an object\<close>

text \<open>
  Claim C5. In a state that satisfies the actor-position invariant, if the cell one step
  ahead of the person is on the board and holds no object, \<^verbatim>\<open>move\<close> succeeds and
  changes exactly two cells: the old cell, which loses the person flag and nothing else,
  and the new cell, which gains the person flag and nothing else. Every other cell of
  the board keeps its flags.
\<close>

theorem step_onto_free_cell:
  assumes inv: "actorInvariant m"
    and n: "inBoard (ahead (person_pos m) dir 1)"
    and free: "\<not> hasObject m (ahead (person_pos m) dir 1)"
  shows "\<exists>m'. move dir m = Some m' \<and>
           person_pos m' = ahead (person_pos m) dir 1 \<and>
           at m' (person_pos m) \<noteq> at m (person_pos m) \<and>
           hasPerson m (person_pos m) \<and> \<not> hasPerson m' (person_pos m) \<and>
           hasObject m' (person_pos m) = hasObject m (person_pos m) \<and>
           isGoal m' (person_pos m) = isGoal m (person_pos m) \<and>
           at m' (person_pos m') \<noteq> at m (person_pos m') \<and>
           \<not> hasPerson m (person_pos m') \<and> hasPerson m' (person_pos m') \<and>
           hasObject m' (person_pos m') = hasObject m (person_pos m') \<and>
           isGoal m' (person_pos m') = isGoal m (person_pos m') \<and>
           (\<forall>q. inBoard q \<longrightarrow> q \<noteq> person_pos m \<longrightarrow> q \<noteq> person_pos m' \<longrightarrow> at m' q = at m q)"
proof -
  let ?pos = "person_pos m" and ?nxt = "ahead (person_pos m) dir (Suc 0)"
  have wf: "wellFormed m" and u: "\<And>q. inBoard q \<Longrightarrow> hasPerson m q = (q = ?pos)"
    using inv by (simp_all add: actorInvariant_iff)
  have p: "inBoard ?pos" using wf by (simp add: wellFormed_def)
  have n': "inBoard ?nxt" and free': "\<not> hasObject m ?nxt" using n free by simp_all
  have K: "calculateObjectLength_depth m ?pos dir = 0"
    using n' free' by (intro run_depth) (simp_all add: objectRun_0)
  obtain m' where m': "move dir m = Some m'" "wellFormed m'" "person_pos m' = ?nxt"
      "\<And>q. inBoard q \<Longrightarrow> hasObject m' q = (if q = ?nxt then False else hasObject m q)"
      "\<And>q. inBoard q \<Longrightarrow> hasPerson m' q = (if q = ?nxt then True
                                else if q = ?pos then False else hasPerson m q)"
      "\<And>q. inBoard q \<Longrightarrow> isGoal m' q = isGoal m q"
      "\<And>q. inBoard q \<Longrightarrow> q \<noteq> ?pos \<Longrightarrow> q \<noteq> ?nxt \<Longrightarrow> at m' q = at m q"
    using move_effect[OF wf K[symmetric]] n' by (auto simp: K)
  have ne: "?nxt \<noteq> ?pos" by (rule ahead_neq_self)
  have hp: "hasPerson m ?pos" "\<not> hasPerson m ?nxt" using u[OF p] u[OF n'] ne by simp_all
  have hp': "\<not> hasPerson m' ?pos" "hasPerson m' ?nxt" using m'(5)[OF p] m'(5)[OF n'] ne by simp_all
  have c1: "at m' ?pos \<noteq> at m ?pos" using hp(1) hp'(1) by (auto simp: hasPerson_def)
  have c2: "at m' ?nxt \<noteq> at m ?nxt" using hp(2) hp'(2) by (auto simp: hasPerson_def)
  have o: "hasObject m' ?pos = hasObject m ?pos" "hasObject m' ?nxt = hasObject m ?nxt"
    using m'(4)[OF p] m'(4)[OF n'] ne free' by simp_all
  show ?thesis
    using m'(1,3,6,7) hp hp' c1 c2 o p n' by simp
qed

theorem step_onto_free_cell_witness:
  "actorInvariant initial_Map \<and> inBoard (ahead (person_pos initial_Map) Left 1) \<and>
   \<not> hasObject initial_Map (ahead (person_pos initial_Map) Left 1) \<and>
   (\<exists>m'. move Left initial_Map = Some m' \<and>
         person_pos m' = ahead (person_pos initial_Map) Left 1 \<and>
         hasPerson m' (person_pos m') \<and> \<not> hasPerson m' (person_pos initial_Map))"
proof -
  have a: "actorInvariant initial_Map" by code_simp
  have b: "inBoard (ahead (person_pos initial_Map) Left 1)" by code_simp
  have c: "\<not> hasObject initial_Map (ahead (person_pos initial_Map) Left 1)" by code_simp
  from step_onto_free_cell[OF a b c] obtain m' where
    "move Left initial_Map = Some m'" "person_pos m' = ahead (person_pos initial_Map) Left 1"
    "hasPerson m' (person_pos m')" "\<not> hasPerson m' (person_pos initial_Map)"
    by (elim exE conjE)
  then show ?thesis using a b c by (intro conjI exI[of _ m'])
qed

subsection \<open>Pushing a run of objects\<close>

lemma ahead_ahead: "ahead (ahead pos dir j) dir i = ahead pos dir (j + i)"
  by (simp add: ahead_def Vec2D_add_def Vec2D_mul_def algebra_simps)

lemma objectRun_tail:
  assumes "objectRun m pos dir K" "j \<le> K"
  shows "objectRun m (ahead pos dir j) dir (K - j)"
  using assms by (auto simp: objectRun_def ahead_ahead)

lemma calc_levels:
  assumes run: "objectRun m pos dir K"
    and inb: "inBoard (ahead pos dir (Suc K))"
    and free: "\<not> hasObject m (ahead pos dir (Suc K))"
    and j: "j \<le> K"
  shows "calculateObjectLength m (ahead pos dir j) dir = Some (int (K - j))"
proof -
  have e: "ahead (ahead pos dir j) dir (Suc (K - j)) = ahead pos dir (Suc K)"
    using j by (simp add: ahead_ahead)
  have "calculateObjectLength_depth m (ahead pos dir j) dir = K - j"
    using objectRun_tail[OF run j] free by (intro run_depth) (simp_all add: e)
  then show ?thesis using inb by (simp add: calc_depth e)
qed

text \<open>
  Claim C1. In a well-formed state, let the \<open>K \<ge> 0\<close> cells ahead of the person hold a
  run of objects and let the cell after the run be on the board and hold no object. Then
  the chain scan succeeds with count \<open>K\<close>, and the level that starts \<open>j\<close> cells into
  the run counts \<open>K - j\<close>, one more than the level below it. \<^verbatim>\<open>move\<close> succeeds: the
  person advances one cell, the person flag moves with it, every object of the run is
  found one cell further (the cell the person enters holds no object any more, the cells
  \<open>2 \<dots> K + 1\<close> ahead of the old position hold one), no object flag off the run and
  its landing cell changes, no other person flag changes, and no goal flag changes.
\<close>

theorem push_run_succeeds:
  assumes wf: "wellFormed m"
    and run: "objectRun m (person_pos m) dir K"
    and inb: "inBoard (ahead (person_pos m) dir (Suc K))"
    and free: "\<not> hasObject m (ahead (person_pos m) dir (Suc K))"
  shows "(\<forall>j \<le> K. calculateObjectLength m (ahead (person_pos m) dir j) dir = Some (int (K - j))) \<and>
         (\<exists>m'. move dir m = Some m' \<and>
            person_pos m' = ahead (person_pos m) dir 1 \<and>
            hasPerson m' (ahead (person_pos m) dir 1) \<and>
            \<not> hasPerson m' (person_pos m) \<and>
            \<not> hasObject m' (ahead (person_pos m) dir 1) \<and>
            (\<forall>i \<in> {1..K}. hasObject m' (ahead (person_pos m) dir (Suc i))) \<and>
            (\<forall>q. inBoard q \<longrightarrow> q \<notin> ahead (person_pos m) dir ` {1..Suc K} \<longrightarrow>
                 hasObject m' q = hasObject m q) \<and>
            (\<forall>q. inBoard q \<longrightarrow> q \<noteq> person_pos m \<longrightarrow> q \<noteq> ahead (person_pos m) dir 1 \<longrightarrow>
                 hasPerson m' q = hasPerson m q) \<and>
            (\<forall>q. inBoard q \<longrightarrow> isGoal m' q = isGoal m q))"
proof -
  let ?pos = "person_pos m" and ?nxt = "ahead (person_pos m) dir (Suc 0)"
  have p: "inBoard ?pos" using wf by (simp add: wellFormed_def)
  have K: "K = calculateObjectLength_depth m ?pos dir"
    using run inb free by (simp add: run_depth)
  have n: "inBoard ?nxt" by (rule run_first_inBoard[OF run inb])
  have ne: "?nxt \<noteq> ?pos" by (rule ahead_neq_self)
  obtain m' where m': "move dir m = Some m'" "person_pos m' = ?nxt"
      "\<And>q. inBoard q \<Longrightarrow>
          hasObject m' q = (if q = ahead ?pos dir (Suc K) \<and> K \<noteq> 0 then True
                            else if q = ?nxt then False else hasObject m q)"
      "\<And>q. inBoard q \<Longrightarrow>
          hasPerson m' q = (if q = ?nxt then True else if q = ?pos then False else hasPerson m q)"
      "\<And>q. inBoard q \<Longrightarrow> isGoal m' q = isGoal m q"
    using move_effect[OF wf K inb] by blast
  have lv: "\<forall>j \<le> K. calculateObjectLength m (ahead ?pos dir j) dir = Some (int (K - j))"
    using calc_levels[OF run inb free] by blast
  have d: "(ahead ?pos dir (Suc K) = ?nxt) = (K = 0)"
    using ahead_inj[of ?pos dir "Suc K" "Suc 0"] by auto
  have a1: "hasPerson m' ?nxt" using m'(4)[OF n] by simp
  have a2: "\<not> hasPerson m' ?pos" using m'(4)[OF p] ne by simp
  have a3: "\<not> hasObject m' ?nxt"
  proof (cases "K = 0")
    case True
    then show ?thesis using m'(3)[OF n] by simp
  next
    case False
    then have "?nxt \<noteq> ahead ?pos dir (Suc K)" using d by auto
    then show ?thesis using m'(3)[OF n] by simp
  qed
  have a4: "hasObject m' (ahead ?pos dir (Suc i))" if "i \<in> {1..K}" for i
  proof (cases "i = K")
    case True
    then show ?thesis using m'(3)[OF inb] that by auto
  next
    case False
    then have r: "Suc i \<in> {1..K}" using that by auto
    then have b: "inBoard (ahead ?pos dir (Suc i))" "hasObject m (ahead ?pos dir (Suc i))"
      using run unfolding objectRun_def by blast+
    have "ahead ?pos dir (Suc i) \<noteq> ?nxt"
      using ahead_inj[of ?pos dir "Suc i" "Suc 0"] that by auto
    then show ?thesis using m'(3)[OF b(1)] b(2) by simp
  qed
  have a5: "hasObject m' q = hasObject m q"
    if "inBoard q" "q \<notin> ahead ?pos dir ` {1..Suc K}" for q
  proof -
    have "q \<noteq> ahead ?pos dir (Suc K)" "q \<noteq> ?nxt" using that(2) by auto
    then show ?thesis using m'(3)[OF that(1)] by simp
  qed
  have a6: "hasPerson m' q = hasPerson m q" if "inBoard q" "q \<noteq> ?pos" "q \<noteq> ?nxt" for q
    using m'(4)[OF that(1)] that by simp
  show ?thesis using lv m'(1,2,5) a1 a2 a3 a4 a5 a6 by simp
qed

theorem push_run_succeeds_witness:
  "wellFormed beside_Map \<and> objectRun beside_Map (person_pos beside_Map) Left 2 \<and>
   inBoard (ahead (person_pos beside_Map) Left (Suc 2)) \<and>
   \<not> hasObject beside_Map (ahead (person_pos beside_Map) Left (Suc 2)) \<and>
   calculateObjectLength beside_Map (person_pos beside_Map) Left = Some 2 \<and>
   move Left beside_Map = Some blocked_Map"
proof -
  have a: "wellFormed beside_Map" by code_simp
  have b: "objectRun beside_Map (person_pos beside_Map) Left 2" by code_simp
  have c: "inBoard (ahead (person_pos beside_Map) Left (Suc 2))" by code_simp
  have d: "\<not> hasObject beside_Map (ahead (person_pos beside_Map) Left (Suc 2))" by code_simp
  have e: "move Left beside_Map = Some blocked_Map" by code_simp
  have "\<forall>j \<le> 2. calculateObjectLength beside_Map (ahead (person_pos beside_Map) Left j) Left
          = Some (int (2 - j))"
    using push_run_succeeds[OF a b c d] by (elim conjE)
  then have "calculateObjectLength beside_Map (ahead (person_pos beside_Map) Left 0) Left = Some 2"
    by (elim allE[of _ 0]) simp
  then show ?thesis using a b c d e by (simp add: ahead_0)
qed

text \<open>
  Claim C2, as stated, fails. In \<open>above_Map\<close> the person stands at \<open>(2,0)\<close> above one
  object; the move Down resolves \<open>N = 1\<close> object and succeeds. The cell at the old
  position plus \<open>N\<close> times the offset is \<open>(2,1)\<close>: after the move it holds the person
  and no object. The object flag has been raised at \<open>(2,2)\<close>, \<open>N + 1\<close> cells past the
  old position.
\<close>

theorem leading_object_counterexample:
  "calculateObjectLength above_Map (person_pos above_Map) Down = Some 1 \<and>
   move Down above_Map = Some pushed_Map \<and>
   \<not> hasObject pushed_Map (Vec2D_add (person_pos above_Map) (Vec2D_mul (dirToVec Down) 1)) \<and>
   hasObject pushed_Map (Vec2D_add (person_pos above_Map) (Vec2D_mul (dirToVec Down) (1 + 1)))"
  by code_simp

text \<open>
  Claim C2, amended. \<^verbatim>\<open>move\<close> raises the object flag after \<^verbatim>\<open>moveOnlyPerson\<close> has
  advanced the tracked position. So for a successful move that resolves \<open>N > 0\<close>
  objects, the flag is set on the cell \<open>N\<close> offsets past the \<^emph>\<open>new\<close> position of the
  person, which is \<open>N + 1\<close> offsets past the position before the move: a cell on the
  board that held no object before.
\<close>

theorem leading_object_lands_past_new_position:
  assumes wf: "wellFormed m"
    and c: "calculateObjectLength m (person_pos m) dir = Some N"
    and N: "0 < N"
  shows "\<exists>m'. move dir m = Some m' \<and>
           person_pos m' = Vec2D_add (person_pos m) (dirToVec dir) \<and>
           Vec2D_add (person_pos m') (Vec2D_mul (dirToVec dir) N) =
             Vec2D_add (person_pos m) (Vec2D_mul (dirToVec dir) (N + 1)) \<and>
           inBoard (Vec2D_add (person_pos m') (Vec2D_mul (dirToVec dir) N)) \<and>
           \<not> hasObject m (Vec2D_add (person_pos m') (Vec2D_mul (dirToVec dir) N)) \<and>
           hasObject m' (Vec2D_add (person_pos m') (Vec2D_mul (dirToVec dir) N))"
proof -
  let ?pos = "person_pos m"
  define K where "K = calculateObjectLength_depth m ?pos dir"
  have inb: "inBoard (ahead ?pos dir (Suc K))" and NK: "N = int K"
    using c N calc_depth[of m ?pos dir] by (auto simp: K_def split: if_splits)
  have K0: "K \<noteq> 0" using N NK by simp
  have free: "\<not> hasObject m (ahead ?pos dir (Suc K))"
    using depth_run[of m ?pos dir] inb by (simp add: K_def)
  obtain m' where m': "move dir m = Some m'" "person_pos m' = ahead ?pos dir (Suc 0)"
      "\<And>q. inBoard q \<Longrightarrow>
          hasObject m' q = (if q = ahead ?pos dir (Suc K) \<and> K \<noteq> 0 then True
                            else if q = ahead ?pos dir (Suc 0) then False else hasObject m q)"
    using move_effect[OF wf K_def inb] by blast
  have p': "person_pos m' = Vec2D_add ?pos (dirToVec dir)"
    by (simp add: m'(2) ahead_1)
  have t: "Vec2D_add (person_pos m') (Vec2D_mul (dirToVec dir) N) = ahead ?pos dir (Suc K)"
    using ahead_target[of N ?pos dir] N by (simp add: p' NK)
  have t2: "Vec2D_add ?pos (Vec2D_mul (dirToVec dir) (N + 1)) = ahead ?pos dir (Suc K)"
    by (simp add: ahead_def NK add.commute)
  have h: "hasObject m' (ahead ?pos dir (Suc K))" using m'(3)[OF inb] K0 by simp
  have g1: "Vec2D_add (person_pos m') (Vec2D_mul (dirToVec dir) N) =
             Vec2D_add ?pos (Vec2D_mul (dirToVec dir) (N + 1))"
    by (simp only: t t2)
  have g2: "inBoard (Vec2D_add (person_pos m') (Vec2D_mul (dirToVec dir) N))"
    unfolding t by (rule inb)
  have g3: "\<not> hasObject m (Vec2D_add (person_pos m') (Vec2D_mul (dirToVec dir) N))"
    unfolding t by (rule free)
  have g4: "hasObject m' (Vec2D_add (person_pos m') (Vec2D_mul (dirToVec dir) N))"
    unfolding t by (rule h)
  show ?thesis
    using m'(1) p' g1 g2 g3 g4 by (intro exI[of _ m'] conjI)
qed

theorem leading_object_lands_past_new_position_witness:
  "wellFormed above_Map \<and>
   calculateObjectLength above_Map (person_pos above_Map) Down = Some 1 \<and> (0::int) < 1 \<and>
   (\<exists>m'. move Down above_Map = Some m' \<and>
      hasObject m' (Vec2D_add (person_pos m') (Vec2D_mul (dirToVec Down) 1)))"
proof -
  have a: "wellFormed above_Map" by code_simp
  have b: "calculateObjectLength above_Map (person_pos above_Map) Down = Some 1" by code_simp
  have c: "(0::int) < 1" by simp
  from leading_object_lands_past_new_position[OF a b c] obtain m' where
    "move Down above_Map = Some m'"
    "hasObject m' (Vec2D_add (person_pos m') (Vec2D_mul (dirToVec Down) 1))"
    by (elim exE conjE)
  then show ?thesis using a b c by (intro conjI exI[of _ m'])
qed

subsection \<open>Conservation of objects\<close>

lemma length_filter_swap:
  assumes d: "distinct xs" and a: "a \<in> set xs" and b: "b \<in> set xs"
    and Pa: "P a" and Pb: "\<not> P b"
    and P': "\<And>q. q \<in> set xs \<Longrightarrow> P' q = (if q = b then True else if q = a then False else P q)"
  shows "length (filter P' xs) = length (filter P xs)"
proof -
  let ?S = "{q. P q} \<inter> set xs"
  have e: "{q. P' q} \<inter> set xs = insert b (?S - {a})"
    using P' b by (auto split: if_splits)
  have fin: "finite ?S" and aS: "a \<in> ?S" and bS: "b \<notin> ?S - {a}"
    using a Pa Pb by simp_all
  have "card (insert b (?S - {a})) = Suc (card (?S - {a}))"
    using fin bS by (intro card_insert_disjoint) simp_all
  also have "\<dots> = card ?S"
    using fin aS by (rule card_Suc_Diff1)
  finally have "card (insert b (?S - {a})) = card ?S" .
  then show ?thesis using d e by (simp add: distinct_length_filter)
qed

lemma objectCount_same:
  assumes "\<And>q. inBoard q \<Longrightarrow> hasObject m' q = hasObject m q"
  shows "objectCount m' = objectCount m"
proof -
  have "filter (hasObject m') allCells = filter (hasObject m) allCells"
    using assms by (intro filter_cong) (simp_all add: set_allCells)
  then show ?thesis by (simp add: objectCount_def)
qed

text \<open>
  Claim C6. From a well-formed state every call of \<^verbatim>\<open>move\<close> returns, and the number of
  cells of the board that hold an object is the same before and after. When the chain
  scan rejects the move (a negative count), the state returned is the state given, so
  every object flag is as before.
\<close>

theorem move_preserves_object_count:
  assumes wf: "wellFormed m"
  shows "\<exists>m' n. calculateObjectLength m (person_pos m) dir = Some n \<and>
           move dir m = Some m' \<and>
           objectCount m' = objectCount m \<and>
           (n < 0 \<longrightarrow> m' = m)"
proof -
  let ?pos = "person_pos m"
  define K where "K = calculateObjectLength_depth m ?pos dir"
  show ?thesis
  proof (cases "inBoard (ahead ?pos dir (Suc K))")
    case False
    then have "calculateObjectLength m ?pos dir = Some (- 1)" "move dir m = Some m"
      by (simp_all add: K_def calc_depth move_rejected)
    then show ?thesis by simp
  next
    case True
    have c: "calculateObjectLength m ?pos dir = Some (int K)"
      using True by (simp add: K_def calc_depth)
    have run: "objectRun m ?pos dir K" and free: "\<not> hasObject m (ahead ?pos dir (Suc K))"
      using depth_run[of m ?pos dir] True by (simp_all add: K_def)
    have n: "inBoard (ahead ?pos dir (Suc 0))" by (rule run_first_inBoard[OF run True])
    obtain m' where m': "move dir m = Some m'"
      "\<And>q. inBoard q \<Longrightarrow>
          hasObject m' q = (if q = ahead ?pos dir (Suc K) \<and> K \<noteq> 0 then True
                            else if q = ahead ?pos dir (Suc 0) then False else hasObject m q)"
      using move_effect[OF wf K_def True] by blast
    have "objectCount m' = objectCount m"
    proof (cases "K = 0")
      case True
      then have "hasObject m' q = hasObject m q" if "inBoard q" for q
        using m'(2)[OF that] free by auto
      then show ?thesis by (rule objectCount_same)
    next
      case False
      then have o: "hasObject m (ahead ?pos dir (Suc 0))"
        using run by (simp add: objectRun_def)
      have "length (filter (hasObject m') allCells) = length (filter (hasObject m) allCells)"
      proof (rule length_filter_swap[where a = "ahead ?pos dir (Suc 0)" and b = "ahead ?pos dir (Suc K)"])
        show "distinct allCells" by (rule distinct_allCells)
        show "ahead ?pos dir (Suc 0) \<in> set allCells" using n by (simp add: set_allCells)
        show "ahead ?pos dir (Suc K) \<in> set allCells" using True by (simp add: set_allCells)
        show "hasObject m (ahead ?pos dir (Suc 0))" by (rule o)
        show "\<not> hasObject m (ahead ?pos dir (Suc K))" by (rule free)
        show "hasObject m' q = (if q = ahead ?pos dir (Suc K) then True
               else if q = ahead ?pos dir (Suc 0) then False else hasObject m q)"
          if "q \<in> set allCells" for q
          using m'(2)[of q] that False by (simp add: set_allCells)
      qed
      then show ?thesis by (simp add: objectCount_def)
    qed
    then show ?thesis using c m'(1) by simp
  qed
qed

theorem move_preserves_object_count_witness:
  "wellFormed beside_Map \<and> wellFormed blocked_Map \<and>
   move Left beside_Map = Some blocked_Map \<and> objectCount blocked_Map = objectCount beside_Map \<and>
   objectCount beside_Map = 2 \<and>
   calculateObjectLength blocked_Map (person_pos blocked_Map) Left = Some (- 1) \<and>
   move Left blocked_Map = Some blocked_Map"
proof -
  have a: "wellFormed beside_Map" by code_simp
  have b: "wellFormed blocked_Map" by code_simp
  have c: "move Left beside_Map = Some blocked_Map" by code_simp
  have d: "calculateObjectLength blocked_Map (person_pos blocked_Map) Left = Some (- 1)" by code_simp
  have e: "objectCount beside_Map = 2" by code_simp
  have f: "objectCount blocked_Map = objectCount beside_Map"
    using move_preserves_object_count[OF a, of Left] c by auto
  have g: "move Left blocked_Map = Some blocked_Map"
    using move_preserves_object_count[OF b, of Left] d by auto
  show ?thesis using a b c d e f g by simp
qed

subsection \<open>Sequences of moves\<close>

lemma move_wellFormed:
  assumes wf: "wellFormed m"
  shows "\<exists>m'. move dir m = Some m' \<and> wellFormed m' \<and>
           (\<forall>q. inBoard q \<longrightarrow> isGoal m' q = isGoal m q)"
proof (cases "inBoard (ahead (person_pos m) dir (Suc (calculateObjectLength_depth m (person_pos m) dir)))")
  case False
  then show ?thesis using wf by (simp add: move_rejected)
next
  case True
  show ?thesis using move_effect[OF wf refl True] by blast
qed

lemma moves_wellFormed:
  "wellFormed m \<Longrightarrow>
   \<exists>m'. moves dirs m = Some m' \<and> wellFormed m' \<and>
        (\<forall>q. inBoard q \<longrightarrow> isGoal m' q = isGoal m q)"
proof (induction dirs arbitrary: m)
  case Nil
  then show ?case by simp
next
  case (Cons dir dirs)
  obtain m1 where m1: "move dir m = Some m1" "wellFormed m1"
      "\<forall>q. inBoard q \<longrightarrow> isGoal m1 q = isGoal m q"
    using move_wellFormed[OF Cons.prems] by blast
  obtain m' where m': "moves dirs m1 = Some m'" "wellFormed m'"
      "\<forall>q. inBoard q \<longrightarrow> isGoal m' q = isGoal m1 q"
    using Cons.IH[OF m1(2)] by blast
  show ?case using m1 m' by simp
qed

text \<open>
  Claim C7. After any finite sequence of moves from the initial layout, every cell of the
  board has the goal flag it has in the initial layout. The same holds from any
  well-formed state: \<^verbatim>\<open>move\<close> never sets or clears the goal bit of a cell.
\<close>

theorem goal_flags_never_change:
  "(\<exists>m'. moves dirs initial_Map = Some m' \<and>
      (\<forall>q. inBoard q \<longrightarrow> isGoal m' q = isGoal initial_Map q)) \<and>
   (wellFormed m \<longrightarrow>
      (\<exists>m'. moves dirs m = Some m' \<and> (\<forall>q. inBoard q \<longrightarrow> isGoal m' q = isGoal m q)))"
  using moves_wellFormed[OF wellFormed_initial, of dirs] moves_wellFormed[of m dirs]
  by blast

theorem goal_flags_never_change_witness:
  "wellFormed initial_Map \<and> moves [Left, Left, Down] initial_Map = Some pushed_Map \<and>
   inBoard \<lparr>x = 2, y = 0\<rparr> \<and> isGoal initial_Map \<lparr>x = 2, y = 0\<rparr> \<and>
   isGoal pushed_Map \<lparr>x = 2, y = 0\<rparr> \<and>
   inBoard \<lparr>x = 2, y = 1\<rparr> \<and> \<not> isGoal initial_Map \<lparr>x = 2, y = 1\<rparr> \<and>
   \<not> isGoal pushed_Map \<lparr>x = 2, y = 1\<rparr>"
proof -
  have w: "wellFormed initial_Map" by code_simp
  have r: "moves [Left, Left, Down] initial_Map = Some pushed_Map" by code_simp
  have a: "inBoard \<lparr>x = 2, y = 0\<rparr>" by code_simp
  have b: "isGoal initial_Map \<lparr>x = 2, y = 0\<rparr>" by code_simp
  have c: "inBoard \<lparr>x = 2, y = 1\<rparr>" by code_simp
  have d: "\<not> isGoal initial_Map \<lparr>x = 2, y = 1\<rparr>" by code_simp
  have "\<exists>m'. moves [Left, Left, Down] initial_Map = Some m' \<and>
          (\<forall>q. inBoard q \<longrightarrow> isGoal m' q = isGoal initial_Map q)"
    using goal_flags_never_change[of "[Left, Left, Down]" initial_Map] w by (elim conjE impE)
  then have "\<forall>q. inBoard q \<longrightarrow> isGoal pushed_Map q = isGoal initial_Map q"
    using r by simp
  then show ?thesis using w r a b c d by simp
qed

lemma move_standsFree:
  assumes "standsFree m"
  shows "\<exists>m'. move dir m = Some m' \<and> standsFree m'"
proof (cases "inBoard (ahead (person_pos m) dir (Suc (calculateObjectLength_depth m (person_pos m) dir)))")
  case False
  then show ?thesis using assms by (simp add: move_rejected)
next
  case True
  let ?pos = "person_pos m"
  let ?K = "calculateObjectLength_depth m ?pos dir"
  have wf: "wellFormed m" and u: "\<And>q. inBoard q \<Longrightarrow> hasPerson m q = (q = ?pos)"
    using assms by (simp_all add: standsFree_def actorInvariant_iff)
  obtain m' where m': "move dir m = Some m'" "wellFormed m'"
      "person_pos m' = ahead ?pos dir (Suc 0)"
      "\<And>q. inBoard q \<Longrightarrow>
          hasObject m' q = (if q = ahead ?pos dir (Suc ?K) \<and> ?K \<noteq> 0 then True
                            else if q = ahead ?pos dir (Suc 0) then False else hasObject m q)"
      "\<And>q. inBoard q \<Longrightarrow>
              hasPerson m' q = (if q = ahead ?pos dir (Suc 0) then True
                                else if q = ?pos then False
                                else hasPerson m q)"
    using move_effect[OF wf refl True] by blast
  have n: "inBoard (ahead ?pos dir (Suc 0))"
    using m'(2,3) by (simp add: wellFormed_def)
  have "hasPerson m' q = (q = person_pos m')" if "inBoard q" for q
    using m'(5)[OF that] u[OF that] m'(3) by simp
  then have inv: "actorInvariant m'" using m'(2) by (simp add: actorInvariant_iff)
  have "ahead ?pos dir (Suc 0) = ahead ?pos dir (Suc ?K) \<Longrightarrow> ?K = 0"
    using ahead_inj[of ?pos dir "Suc 0" "Suc ?K"] by simp
  then have "\<not> hasObject m' (person_pos m')"
    using m'(4)[OF n] m'(3) by auto
  then show ?thesis using m'(1) inv by (simp add: standsFree_def)
qed

lemma moves_standsFree:
  "standsFree m \<Longrightarrow> \<exists>m'. moves dirs m = Some m' \<and> standsFree m'"
proof (induction dirs arbitrary: m)
  case Nil
  then show ?case by simp
next
  case (Cons dir dirs)
  obtain m1 where m1: "move dir m = Some m1" "standsFree m1"
    using move_standsFree[OF Cons.prems] by blast
  show ?case using Cons.IH[OF m1(2)] m1(1) by simp
qed

lemma standsFree_initial: "standsFree initial_Map"
  by code_simp

text \<open>
  Claim C10. In the initial layout and after any finite sequence of moves from it, the
  cell at the tracked position carries the person flag, and no cell of the board that
  carries the person flag carries the object flag.
\<close>

theorem person_never_on_object:
  "\<exists>m'. moves dirs initial_Map = Some m' \<and>
        hasPerson m' (person_pos m') \<and>
        (\<forall>q. inBoard q \<longrightarrow> hasPerson m' q \<longrightarrow> \<not> hasObject m' q)"
proof -
  obtain m' where m': "moves dirs initial_Map = Some m'" "standsFree m'"
    using moves_standsFree[OF standsFree_initial] by blast
  have wf: "wellFormed m'" and u: "\<And>q. inBoard q \<Longrightarrow> hasPerson m' q = (q = person_pos m')"
    and f: "\<not> hasObject m' (person_pos m')"
    using m'(2) by (simp_all add: standsFree_def actorInvariant_iff)
  have "hasPerson m' (person_pos m')" using u[of "person_pos m'"] wf by (simp add: wellFormed_def)
  moreover have "\<not> hasObject m' q" if "inBoard q" "hasPerson m' q" for q
    using u[OF that(1)] that(2) f by simp
  ultimately show ?thesis using m'(1) by blast
qed

theorem person_never_on_object_witness:
  "moves [Left, Left, Down] initial_Map = Some pushed_Map \<and>
   inBoard (person_pos pushed_Map) \<and> hasPerson pushed_Map (person_pos pushed_Map) \<and>
   hasObject above_Map (person_pos pushed_Map) \<and>
   \<not> hasObject pushed_Map (person_pos pushed_Map)"
proof -
  have r: "moves [Left, Left, Down] initial_Map = Some pushed_Map" by code_simp
  have a: "inBoard (person_pos pushed_Map)" by code_simp
  have b: "hasObject above_Map (person_pos pushed_Map)" by code_simp
  have "hasPerson pushed_Map (person_pos pushed_Map) \<and>
        (\<forall>q. inBoard q \<longrightarrow> hasPerson pushed_Map q \<longrightarrow> \<not> hasObject pushed_Map q)"
    using person_never_on_object[of "[Left, Left, Down]"] r by simp
  then show ?thesis using r a b by simp
qed

subsection \<open>Termination of the chain scan and the cells it touches\<close>

lemma run_bound:
  assumes "objectRun m pos dir K"
  shows "K \<le> max Width Height"
proof (cases K)
  case 0
  then show ?thesis by simp
next
  case (Suc k)
  then have "inBoard (ahead pos dir 1)" "inBoard (ahead pos dir K)"
    using assms by (simp_all add: objectRun_def)
  then show ?thesis
    by (cases dir) (auto simp: inBoard_def ahead_def Vec2D_add_def Vec2D_mul_def)
qed

lemma accesses_set:
  "set (calculateObjectLength_accesses m pos dir) =
     ahead pos dir `
       (if inBoard (ahead pos dir (Suc (calculateObjectLength_depth m pos dir)))
        then {1..Suc (calculateObjectLength_depth m pos dir)}
        else {1..calculateObjectLength_depth m pos dir})"
  by (subst accesses_depth) (auto simp del: upt_Suc)

lemma accesses_inBoard:
  assumes "p \<in> set (calculateObjectLength_accesses m pos dir)"
  shows "inBoard p"
proof -
  let ?K = "calculateObjectLength_depth m pos dir"
  obtain i where i: "p = ahead pos dir i" "1 \<le> i" "i \<le> Suc ?K"
    "i = Suc ?K \<longrightarrow> inBoard (ahead pos dir (Suc ?K))"
    using assms unfolding accesses_set by (auto split: if_splits)
  show ?thesis
  proof (cases "i = Suc ?K")
    case True
    then show ?thesis using i by simp
  next
    case False
    then have "i \<in> {1..?K}" using i by simp
    then show ?thesis using depth_run[of m pos dir] i(1) unfolding objectRun_def by blast
  qed
qed

lemma accesses_distinct: "distinct (calculateObjectLength_accesses m pos dir)"
proof -
  have "inj_on (ahead pos dir) A" for A
    by (rule inj_onI) (rule ahead_inj)
  then show ?thesis by (subst accesses_depth) (simp add: distinct_map del: upt_Suc)
qed

text \<open>
  Claim C9. \<^verbatim>\<open>calculateObjectLength\<close> is a total function (its termination is proved
  with the distance to the board's edge as measure), so for every state, starting
  position and direction it returns a count. Its recursion depth \<open>K\<close> is the length of
  the maximal run of objects ahead: the \<open>K\<close> cells ahead are on the board and hold an
  object, the next one is off the board or holds none. The depth is at most the longest
  dimension of the board. The scan succeeds (with count \<open>K\<close>) exactly when the cell after
  the run is on the board, and fails exactly when it is off the board. No cell is read
  twice.
\<close>

theorem chain_scan_terminates:
  "\<exists>n. calculateObjectLength m pos dir = Some n \<and>
     objectRun m pos dir (calculateObjectLength_depth m pos dir) \<and>
     \<not> (inBoard (ahead pos dir (Suc (calculateObjectLength_depth m pos dir))) \<and>
        hasObject m (ahead pos dir (Suc (calculateObjectLength_depth m pos dir)))) \<and>
     calculateObjectLength_depth m pos dir \<le> max Width Height \<and>
     (0 \<le> n \<longleftrightarrow> inBoard (ahead pos dir (Suc (calculateObjectLength_depth m pos dir)))) \<and>
     (0 \<le> n \<longrightarrow> n = int (calculateObjectLength_depth m pos dir)) \<and>
     (n < 0 \<longleftrightarrow> \<not> inBoard (ahead pos dir (Suc (calculateObjectLength_depth m pos dir)))) \<and>
     distinct (calculateObjectLength_accesses m pos dir)"
proof -
  let ?K = "calculateObjectLength_depth m pos dir"
  have r: "objectRun m pos dir ?K"
    and e: "\<not> (inBoard (ahead pos dir (Suc ?K)) \<and> hasObject m (ahead pos dir (Suc ?K)))"
    using depth_run[of m pos dir] by simp_all
  have b: "?K \<le> max Width Height" by (rule run_bound[OF r])
  show ?thesis
    using r e b accesses_distinct[of m pos dir] by (simp add: calc_depth)
qed

theorem chain_scan_terminates_witness:
  "calculateObjectLength beside_Map (person_pos beside_Map) Left = Some 2 \<and>
   calculateObjectLength_depth beside_Map (person_pos beside_Map) Left = 2 \<and>
   objectRun beside_Map (person_pos beside_Map) Left 2 \<and>
   calculateObjectLength blocked_Map (person_pos blocked_Map) Left = Some (- 1) \<and>
   calculateObjectLength_depth blocked_Map (person_pos blocked_Map) Left = 2 \<and>
   objectRun blocked_Map (person_pos blocked_Map) Left 2 \<and>
   \<not> inBoard (ahead (person_pos blocked_Map) Left (Suc 2))"
proof -
  have a: "calculateObjectLength beside_Map (person_pos beside_Map) Left = Some 2" by code_simp
  have b: "calculateObjectLength_depth beside_Map (person_pos beside_Map) Left = 2" by code_simp
  have c: "calculateObjectLength blocked_Map (person_pos blocked_Map) Left = Some (- 1)" by code_simp
  have d: "calculateObjectLength_depth blocked_Map (person_pos blocked_Map) Left = 2" by code_simp
  obtain n where n: "calculateObjectLength beside_Map (person_pos beside_Map) Left = Some n"
    "objectRun beside_Map (person_pos beside_Map) Left
       (calculateObjectLength_depth beside_Map (person_pos beside_Map) Left)"
    using chain_scan_terminates[of beside_Map "person_pos beside_Map" Left]
    by (elim exE conjE)
  obtain k where k: "calculateObjectLength blocked_Map (person_pos blocked_Map) Left = Some k"
    "objectRun blocked_Map (person_pos blocked_Map) Left
       (calculateObjectLength_depth blocked_Map (person_pos blocked_Map) Left)"
    "k < 0 \<longleftrightarrow> \<not> inBoard (ahead (person_pos blocked_Map) Left
       (Suc (calculateObjectLength_depth blocked_Map (person_pos blocked_Map) Left)))"
    using chain_scan_terminates[of blocked_Map "person_pos blocked_Map" Left]
    by (elim exE conjE)
  have e: "objectRun beside_Map (person_pos beside_Map) Left 2" using n(2) by (simp only: b)
  have f: "objectRun blocked_Map (person_pos blocked_Map) Left 2" using k(2) by (simp only: d)
  have g: "\<not> inBoard (ahead (person_pos blocked_Map) Left (Suc 2))"
    using k(1,3) c by (simp add: d)
  show ?thesis by (intro conjI a b c d e f g)
qed

text \<open>
  Claim C8. In a well-formed state, every coordinate handed to \<^verbatim>\<open>at\<close> during a call of
  \<^verbatim>\<open>move\<close> is on the board, so its index is inside the array and \<^verbatim>\<open>move\<close> returns
  without an access out of range. Each of these coordinates is the person's own cell or a
  cell the chain scan has bounds-checked and read. The chain scan reads cells of the
  board only, from whatever position it starts: the bounds check precedes the read.
\<close>

theorem accesses_stay_on_board:
  assumes wf: "wellFormed m"
  shows "(\<forall>p \<in> set (move_accesses dir m). inBoard p \<and> index p < Width * Height) \<and>
         set (move_accesses dir m) \<subseteq>
           insert (person_pos m) (set (calculateObjectLength_accesses m (person_pos m) dir)) \<and>
         (\<forall>pos. \<forall>p \<in> set (calculateObjectLength_accesses m pos dir). inBoard p) \<and>
         (\<exists>m'. move dir m = Some m')"
proof -
  let ?pos = "person_pos m"
  let ?K = "calculateObjectLength_depth m ?pos dir"
  let ?A = "set (calculateObjectLength_accesses m ?pos dir)"
  have p: "inBoard ?pos" using wf by (simp add: wellFormed_def)
  have sub: "set (move_accesses dir m) \<subseteq> insert ?pos ?A"
  proof (cases "inBoard (ahead ?pos dir (Suc ?K))")
    case False
    then show ?thesis by (auto simp: move_accesses_def calc_depth)
  next
    case True
    have A: "?A = ahead ?pos dir ` {1..Suc ?K}" using True by (simp add: accesses_set)
    have n: "ahead ?pos dir (Suc 0) \<in> ?A" unfolding A by (rule imageI) simp
    have t: "ahead ?pos dir (Suc ?K) \<in> ?A" unfolding A by (rule imageI) simp
    have tt: "Vec2D_add (ahead ?pos dir (Suc 0)) (Vec2D_mul (dirToVec dir) (int ?K))
        = ahead ?pos dir (Suc ?K)"
      using ahead_target[of "int ?K" ?pos dir] by (simp add: ahead_1)
    show ?thesis
      using True n t
      by (auto simp: move_accesses_def calc_depth moveOnlyPerson_accesses_def tt ahead_1[symmetric])
  qed
  have inb: "inBoard q" if "q \<in> set (move_accesses dir m)" for q
    using that sub p accesses_inBoard[of q m ?pos dir] by auto
  have mv: "\<exists>m'. move dir m = Some m'"
    using move_wellFormed[OF wf, of dir] by blast
  show ?thesis
    using inb sub mv accesses_inBoard index_inBoard(2) by blast
qed

theorem accesses_stay_on_board_witness:
  "wellFormed beside_Map \<and>
   move_accesses Left beside_Map =
     [\<lparr>x = 2, y = 1\<rparr>, \<lparr>x = 1, y = 1\<rparr>, \<lparr>x = 0, y = 1\<rparr>,
      \<lparr>x = 3, y = 1\<rparr>, \<lparr>x = 2, y = 1\<rparr>, \<lparr>x = 2, y = 1\<rparr>, \<lparr>x = 0, y = 1\<rparr>] \<and>
   list_all (\<lambda>p. inBoard p \<and> index p < Width * Height) (move_accesses Left beside_Map) \<and>
   (\<exists>m'. move Left beside_Map = Some m')"
proof -
  have a: "wellFormed beside_Map" by code_simp
  have b: "move_accesses Left beside_Map =
     [\<lparr>x = 2, y = 1\<rparr>, \<lparr>x = 1, y = 1\<rparr>, \<lparr>x = 0, y = 1\<rparr>,
      \<lparr>x = 3, y = 1\<rparr>, \<lparr>x = 2, y = 1\<rparr>, \<lparr>x = 2, y = 1\<rparr>, \<lparr>x = 0, y = 1\<rparr>]" by code_simp
  have c: "(\<forall>p \<in> set (move_accesses Left beside_Map). inBoard p \<and> index p < Width * Height) \<and>
           (\<exists>m'. move Left beside_Map = Some m')"
    using accesses_stay_on_board[OF a, of Left] by (elim conjE) (intro conjI)
  have d: "list_all (\<lambda>p. inBoard p \<and> index p < Width * Height) (move_accesses Left beside_Map)"
    using conjunct1[OF c] by (simp only: list_all_iff)
  show ?thesis by (intro conjI a b d conjunct2[OF c])
qed

end
